theory Spec2Isabelle
  imports Main
begin

section \<open>The scraper of \<^verbatim>\<open>src/scrapper.py\<close>\<close>

text \<open>
  The class \<^verbatim>\<open>WebScraper\<close> drives a Selenium browser: \<^verbatim>\<open>navigate_and_extract\<close>
  crawls from a start URL, following the links that \<^verbatim>\<open>extract_image_links\<close> finds, and
  \<^verbatim>\<open>save_scraped_data\<close> writes the pages found to a text file.  The browser is outside
  the program; it is modelled by what it answers: for each location, either the exception
  that \<^verbatim>\<open>driver.get\<close> raises or the document it loads, and for each document what every
  read of it returns or raises.  A Python \<^verbatim>\<open>str\<close> is a \<^typ>\<open>string\<close>, one \<^typ>\<open>char\<close>
  for each character; an \<^verbatim>\<open>int\<close> is an \<^typ>\<open>int\<close>.  What \<^verbatim>\<open>print\<close> writes, the two
  seconds of \<^verbatim>\<open>time.sleep\<close> and the bound Python puts on the depth of recursion are not
  modelled, and the driver is one that \<^verbatim>\<open>setup_driver\<close> has created.
\<close>

subsection \<open>Exceptions and the browser\<close>

text \<open>The exceptions Selenium raises; all of them are subclasses of \<^verbatim>\<open>Exception\<close>.\<close>

datatype error =
    TimeoutException
  | NoSuchElementException
  | StaleElementReferenceException
  | InvalidArgumentException
  | WebDriverException

text \<open>A call either returns a value or raises.\<close>

datatype 'a outcome = Returns 'a | Raises error

text \<open>
  An \<^verbatim>\<open>img\<close> element, as the two reads of line 65 see it: \<^verbatim>\<open>img.get_attribute('src')\<close>,
  and \<^verbatim>\<open>img.find_element(By.XPATH, '..').get_attribute('href')\<close>.  \<^verbatim>\<open>get_attribute\<close>
  returns \<^verbatim>\<open>None\<close> for an attribute the element does not have.
\<close>

record img =
  src :: "string option outcome"
  parent_href :: "string option outcome"

text \<open>
  A loaded document, as the driver exposes it: \<^verbatim>\<open>driver.title\<close>,
  \<^verbatim>\<open>driver.current_url\<close>, \<^verbatim>\<open>driver.find_element(By.TAG_NAME, 'body').text\<close> and
  \<^verbatim>\<open>driver.find_elements(By.TAG_NAME, 'img')\<close>.
\<close>

record document =
  driver_title :: "string outcome"
  driver_current_url :: "string outcome"
  body_text :: "string outcome"
  img_elements :: "img list outcome"

text \<open>
  The driver after \<^verbatim>\<open>setup_driver\<close>: \<open>web\<close> is what loading each location yields,
  the same each time it is loaded; \<open>current\<close> is the document now loaded and
  \<open>history\<close> the locations \<^verbatim>\<open>driver.get\<close> was called with, oldest first.  A call that
  raises leaves the document that was loaded before; the scraper never reads it.
\<close>

record webdriver =
  web :: "string \<Rightarrow> document outcome"
  current :: document
  history :: "string list"

definition driver_get :: "webdriver \<Rightarrow> string \<Rightarrow> unit outcome \<times> webdriver" where
  "driver_get drv u =
     (case web drv u of
        Raises e \<Rightarrow> (Raises e, drv\<lparr>history := history drv @ [u]\<rparr>)
      | Returns doc \<Rightarrow> (Returns (), drv\<lparr>current := doc, history := history drv @ [u]\<rparr>))"

subsection \<open>\<^verbatim>\<open>extract_image_links\<close> (lines 55 to 71)\<close>

text \<open>Python's truth value of an \<^verbatim>\<open>Optional[str]\<close>: \<^verbatim>\<open>None\<close> and \<^verbatim>\<open>''\<close> are false.\<close>

definition truthy :: "string option \<Rightarrow> bool" where
  "truthy l = (case l of None \<Rightarrow> False | Some s \<Rightarrow> s \<noteq> [])"

definition startswith :: "string \<Rightarrow> string \<Rightarrow> bool" where
  "startswith s p = (take (length p) s = p)"

text \<open>
  Line 65, for one element: \<^verbatim>\<open>a or b\<close> evaluates \<^verbatim>\<open>b\<close> only when \<^verbatim>\<open>a\<close> is false.
\<close>

definition img_link :: "img \<Rightarrow> string option outcome" where
  "img_link i =
     (case src i of
        Raises e \<Rightarrow> Raises e
      | Returns s \<Rightarrow> if truthy s then Returns s else parent_href i)"

text \<open>The comprehension of lines 64 to 67: the first element that raises ends it.\<close>

fun image_links :: "img list \<Rightarrow> string option list outcome" where
  "image_links [] = Returns []"
| "image_links (i # is) =
     (case img_link i of
        Raises e \<Rightarrow> Raises e
      | Returns l \<Rightarrow>
          (case image_links is of
             Raises e \<Rightarrow> Raises e
           | Returns ls \<Rightarrow> Returns (l # ls)))"

text \<open>The condition of line 68: \<^verbatim>\<open>link and link.startswith('http')\<close>.\<close>

definition keep_link :: "string option \<Rightarrow> bool" where
  "keep_link l = (case l of None \<Rightarrow> False | Some s \<Rightarrow> truthy l \<and> startswith s ''http'')"

text \<open>The whole body is inside \<^verbatim>\<open>try\<close>; the handler returns \<^verbatim>\<open>[]\<close>.\<close>

definition extract_image_links :: "webdriver \<Rightarrow> string list" where
  "extract_image_links drv =
     (case img_elements (current drv) of
        Raises e \<Rightarrow> []
      | Returns image_elements \<Rightarrow>
          (case image_links image_elements of
             Raises e \<Rightarrow> []
           | Returns links \<Rightarrow> map the (filter keep_link links)))"

subsection \<open>\<^verbatim>\<open>extract_page_details\<close> (lines 73 to 85)\<close>

record page =
  title :: string
  url :: string
  page_content :: string

text \<open>The dictionary display evaluates its values in order; nothing is caught here.\<close>

definition extract_page_details :: "webdriver \<Rightarrow> page outcome" where
  "extract_page_details drv =
     (case driver_title (current drv) of
        Raises e \<Rightarrow> Raises e
      | Returns t \<Rightarrow>
          (case driver_current_url (current drv) of
             Raises e \<Rightarrow> Raises e
           | Returns u \<Rightarrow>
               (case body_text (current drv) of
                  Raises e \<Rightarrow> Raises e
                | Returns b \<Rightarrow> Returns \<lparr>title = t, url = u, page_content = b\<rparr>)))"

subsection \<open>\<^verbatim>\<open>navigate_and_extract\<close> (lines 87 to 125)\<close>

text \<open>
  The state \<^verbatim>\<open>recursive_scrape\<close> works on: the driver of \<^verbatim>\<open>self\<close> and the two local
  variables of \<^verbatim>\<open>navigate_and_extract\<close> that the closure shares.
\<close>

record crawl =
  driver :: webdriver
  scraped_pages :: "page list"
  visited_urls :: "string set"

text \<open>
  The handler of lines 121 and 122: an exception raised inside the \<^verbatim>\<open>try\<close> block is
  printed and the call returns; what the block changed before it raised stays changed.
\<close>

definition except_Exception :: "unit outcome \<times> crawl \<Rightarrow> unit outcome \<times> crawl" where
  "except_Exception r = (case fst r of Raises e \<Rightarrow> (Returns (), snd r) | Returns x \<Rightarrow> r)"

text \<open>
  \<^verbatim>\<open>recursive_scrape\<close>, and the \<^verbatim>\<open>for\<close> loop of lines 118 and 119 as \<open>follow_links\<close>:
  an exception that leaves a call of the loop body would end the loop.
\<close>

function recursive_scrape :: "int \<Rightarrow> string \<Rightarrow> int \<Rightarrow> crawl \<Rightarrow> unit outcome \<times> crawl"
  and follow_links :: "int \<Rightarrow> string list \<Rightarrow> int \<Rightarrow> crawl \<Rightarrow> unit outcome \<times> crawl"
where
  "recursive_scrape max_depth current_url current_depth s =
     (if current_depth > max_depth \<or> current_url \<in> visited_urls s then (Returns (), s)
      else except_Exception
        (case driver_get (driver s) current_url of
           (Raises e, drv) \<Rightarrow> (Raises e, s\<lparr>driver := drv\<rparr>)
         | (Returns _, drv) \<Rightarrow>
             (case extract_page_details drv of
                Raises e \<Rightarrow> (Raises e, s\<lparr>driver := drv\<rparr>)
              | Returns page_details \<Rightarrow>
                  follow_links max_depth (extract_image_links drv) current_depth
                    (s\<lparr>driver := drv,
                       scraped_pages := scraped_pages s @ [page_details],
                       visited_urls := insert current_url (visited_urls s)\<rparr>))))"
| "follow_links max_depth [] current_depth s = (Returns (), s)"
| "follow_links max_depth (link # links) current_depth s =
     (case recursive_scrape max_depth link (current_depth + 1) s of
        (Raises e, s') \<Rightarrow> (Raises e, s')
      | (Returns _, s') \<Rightarrow> follow_links max_depth links current_depth s')"
  by pat_completeness auto
termination
  by (relation "measures
        [\<lambda>x. case x of
           Inl (m, u, d, s) \<Rightarrow> 2 * nat (m + 1 - d)
         | Inr (m, ls, d, s) \<Rightarrow> 2 * nat (m - d) + 1,
         \<lambda>x. case x of Inl _ \<Rightarrow> 0 | Inr (m, ls, d, s) \<Rightarrow> length ls]")
    auto

definition navigate_and_extract ::
  "webdriver \<Rightarrow> string \<Rightarrow> int \<Rightarrow> page list outcome \<times> webdriver" where
  "navigate_and_extract drv start_url max_depth =
     (case recursive_scrape max_depth start_url 0
             \<lparr>driver = drv, scraped_pages = [], visited_urls = {}\<rparr> of
        (Raises e, s) \<Rightarrow> (Raises e, driver s)
      | (Returns _, s) \<Rightarrow> (Returns (scraped_pages s), driver s))"


subsection \<open>\<^verbatim>\<open>save_scraped_data\<close> (lines 127 to 140)\<close>

text \<open>
  The model is the text the four \<^verbatim>\<open>f.write\<close> calls leave in the file, which
  \<^verbatim>\<open>open(output_file, 'w')\<close> has emptied.  That \<^verbatim>\<open>open\<close> or a write can fail is
  not modelled.
\<close>

definition newline :: char where
  "newline = CHR 0x0A"

text \<open>\<^verbatim>\<open>str(index)\<close> of the f-string, for the positive indices \<^verbatim>\<open>enumerate\<close> counts.\<close>

function str_of_nat :: "nat \<Rightarrow> string" where
  "str_of_nat n =
     (if n < 10 then [''0123456789'' ! n]
      else str_of_nat (n div 10) @ [''0123456789'' ! (n mod 10)])"
  by pat_completeness auto
termination
  by (relation "measure (\<lambda>n. n)") auto

definition write_page :: "nat \<Rightarrow> page \<Rightarrow> string" where
  "write_page index p =
     (''Page '' @ str_of_nat index @ '':'' @ [newline]) @
     (''Title: '' @ title p @ [newline]) @
     (''URL: '' @ url p @ [newline]) @
     (''Content: '' @ take 1000 (page_content p) @ ''...'' @ [newline, newline])"

text \<open>The loop over \<^verbatim>\<open>enumerate(scraped_data, 1)\<close>, with the index it has reached.\<close>

fun write_pages :: "nat \<Rightarrow> page list \<Rightarrow> string" where
  "write_pages index [] = []"
| "write_pages index (p # ps) = write_page index p @ write_pages (index + 1) ps"

definition save_scraped_data :: "page list \<Rightarrow> string" where
  "save_scraped_data scraped_data = write_pages 1 scraped_data"

text \<open>Lines 162 and 165 of \<^verbatim>\<open>main\<close>: scrape, then save what was scraped.\<close>

definition scrape_and_save :: "webdriver \<Rightarrow> string \<Rightarrow> int \<Rightarrow> string outcome" where
  "scrape_and_save drv start_url max_depth =
     (case fst (navigate_and_extract drv start_url max_depth) of
        Raises e \<Rightarrow> Raises e
      | Returns scraped_data \<Rightarrow> Returns (save_scraped_data scraped_data))"

section \<open>Notions the properties are stated with\<close>

text \<open>
  What a visit of location \<open>u\<close> appends to \<^verbatim>\<open>scraped_pages\<close> on the web \<open>w\<close>: the
  details of the document \<open>u\<close> loads, or nothing when loading it or reading the details
  raises.
\<close>

definition fetch :: "(string \<Rightarrow> document outcome) \<Rightarrow> string \<Rightarrow> page option" where
  "fetch w u =
     (case w u of
        Raises e \<Rightarrow> None
      | Returns doc \<Rightarrow>
          (case extract_page_details \<lparr>web = w, current = doc, history = []\<rparr> of
             Raises e \<Rightarrow> None
           | Returns p \<Rightarrow> Some p))"

text \<open>The locations that give a page.\<close>

definition scraped :: "(string \<Rightarrow> document outcome) \<Rightarrow> string \<Rightarrow> bool" where
  "scraped w u = (fetch w u \<noteq> None)"

text \<open>The links \<^verbatim>\<open>extract_image_links\<close> returns on the document that \<open>u\<close> loads.\<close>

definition candidates :: "(string \<Rightarrow> document outcome) \<Rightarrow> string \<Rightarrow> string list" where
  "candidates w u =
     (case w u of
        Raises e \<Rightarrow> []
      | Returns doc \<Rightarrow> extract_image_links \<lparr>web = w, current = doc, history = []\<rparr>)"

text \<open>The locations at most \<open>n\<close> links away from \<open>seed\<close>.\<close>

fun within :: "(string \<Rightarrow> document outcome) \<Rightarrow> string \<Rightarrow> nat \<Rightarrow> string set" where
  "within w seed 0 = {seed}"
| "within w seed (Suc n) = within w seed n \<union> (\<Union>u \<in> within w seed n. set (candidates w u))"

text \<open>The crawl after line 106, and after lines 111 and 112.\<close>

definition after_get :: "crawl \<Rightarrow> string \<Rightarrow> crawl" where
  "after_get s u = s\<lparr>driver := snd (driver_get (driver s) u)\<rparr>"

definition recorded :: "crawl \<Rightarrow> string \<Rightarrow> page \<Rightarrow> crawl" where
  "recorded s u p =
     (after_get s u)\<lparr>scraped_pages := scraped_pages s @ [p],
                      visited_urls := insert u (visited_urls s)\<rparr>"

text \<open>The crawl when \<^verbatim>\<open>navigate_and_extract\<close> calls \<^verbatim>\<open>recursive_scrape\<close>, and when it returns.\<close>

definition start :: "webdriver \<Rightarrow> crawl" where
  "start drv = \<lparr>driver = drv, scraped_pages = [], visited_urls = {}\<rparr>"

definition crawl_from :: "webdriver \<Rightarrow> string \<Rightarrow> int \<Rightarrow> crawl" where
  "crawl_from drv start_url max_depth =
     snd (recursive_scrape max_depth start_url 0 (start drv))"

text \<open>
  The invariant of a crawl that started with history \<open>h0\<close>: the pages are the details of
  the locations loaded since, in the order of loading, and the visited locations are
  those of them that gave a page, each loaded once.
\<close>

definition consistent :: "string list \<Rightarrow> crawl \<Rightarrow> bool" where
  "consistent h0 s =
     (\<exists>hs. history (driver s) = h0 @ hs \<and>
           distinct (filter (scraped (web (driver s))) hs) \<and>
           visited_urls s = set (filter (scraped (web (driver s))) hs) \<and>
           scraped_pages s = List.map_filter (fetch (web (driver s))) hs)"

text \<open>Two crawls that differ at most in what the driver shows and has loaded before.\<close>

definition same_view :: "crawl \<Rightarrow> crawl \<Rightarrow> bool" where
  "same_view s t =
     (web (driver s) = web (driver t) \<and> scraped_pages s = scraped_pages t \<and>
      visited_urls s = visited_urls t)"

text \<open>The number a string of decimal digits stands for.\<close>

definition decimal :: "string \<Rightarrow> nat" where
  "decimal ds = foldl (\<lambda>a c. 10 * a + (of_char c - 48)) 0 ds"

section \<open>Browsers to run the scraper on\<close>

text \<open>What a browser shows before it has loaded anything.\<close>

definition blank :: document where
  "blank = \<lparr>driver_title = Returns [], driver_current_url = Returns ''data:,'',
             body_text = Returns [], img_elements = Returns []\<rparr>"

text \<open>The driver right after \<^verbatim>\<open>setup_driver\<close>, on the web \<open>w\<close>.\<close>

definition fresh :: "(string \<Rightarrow> document outcome) \<Rightarrow> webdriver" where
  "fresh w = \<lparr>web = w, current = blank, history = []\<rparr>"

text \<open>A driver that shows \<open>doc\<close>, on a web where nothing loads.\<close>

definition showing :: "document \<Rightarrow> webdriver" where
  "showing doc = \<lparr>web = (\<lambda>u. Raises TimeoutException), current = doc, history = []\<rparr>"

text \<open>
  Image elements: one with a \<^verbatim>\<open>src\<close>, one without a \<^verbatim>\<open>src\<close> inside a parent with an
  \<^verbatim>\<open>href\<close>, one with an empty \<^verbatim>\<open>src\<close> and no \<^verbatim>\<open>href\<close> around it, and one whose handle
  has gone stale.
\<close>

definition plain_img :: "string \<Rightarrow> img" where
  "plain_img l = \<lparr>src = Returns (Some l), parent_href = Returns None\<rparr>"

definition wrapped_img :: "string \<Rightarrow> img" where
  "wrapped_img l = \<lparr>src = Returns None, parent_href = Returns (Some l)\<rparr>"

definition bare_img :: img where
  "bare_img = \<lparr>src = Returns (Some []), parent_href = Returns None\<rparr>"

definition stale_img :: img where
  "stale_img = \<lparr>src = Raises StaleElementReferenceException,
                 parent_href = Raises StaleElementReferenceException\<rparr>"

text \<open>A page at \<open>u\<close> titled \<open>t\<close> whose images have the sources \<open>ls\<close>, and a page of images.\<close>

definition plain_page :: "string \<Rightarrow> string \<Rightarrow> string list \<Rightarrow> document" where
  "plain_page u t ls =
     \<lparr>driver_title = Returns t, driver_current_url = Returns u,
      body_text = Returns (''Welcome to '' @ t), img_elements = Returns (map plain_img ls)\<rparr>"

definition gallery :: "img list outcome \<Rightarrow> document" where
  "gallery els = \<lparr>driver_title = Returns ''Gallery'', driver_current_url = Returns ''http://g'',
                   body_text = Returns [], img_elements = els\<rparr>"

text \<open>A web where nothing loads: the empty location is refused, the others time out.\<close>

definition rejecting_web :: "string \<Rightarrow> document outcome" where
  "rejecting_web u = (if u = [] then Raises InvalidArgumentException else Raises TimeoutException)"

text \<open>
  A web where page A shows images from B and C, B times out and C loads.
\<close>

definition family_web :: "string \<Rightarrow> document outcome" where
  "family_web u =
     (if u = ''http://a'' then Returns (plain_page ''http://a'' ''A'' [''http://b'', ''http://c''])
      else if u = ''http://c'' then Returns (plain_page ''http://c'' ''C'' [])
      else Raises TimeoutException)"

text \<open>A page with one absolute and two relative image sources.\<close>

definition mixed_page :: document where
  "mixed_page = plain_page ''http://m'' ''Mixed'' [''https://example.com/x'', ''/x'', ''images/y.png'']"

text \<open>A web where A and B show an image from each other.\<close>

definition cycle_web :: "string \<Rightarrow> document outcome" where
  "cycle_web u =
     (if u = ''http://a'' then Returns (plain_page ''http://a'' ''A'' [''http://b''])
      else if u = ''http://b'' then Returns (plain_page ''http://b'' ''B'' [''http://a''])
      else Raises TimeoutException)"


text \<open>A web where B redirects to A: loading either shows A, which has an image from B.\<close>

definition redirect_web :: "string \<Rightarrow> document outcome" where
  "redirect_web u =
     (if u = ''http://a'' \<or> u = ''http://b''
      then Returns (plain_page ''http://a'' ''A'' [''http://b''])
      else Raises TimeoutException)"

text \<open>The elements of a list, each at its first occurrence.\<close>

definition firsts :: "'a list \<Rightarrow> 'a list" where
  "firsts xs = rev (remdups (rev xs))"

section \<open>Facts about the crawl\<close>

declare recursive_scrape.simps [simp del]
declare str_of_nat.simps [simp del]


lemma extract_page_details_current:
  "current drv = current drv' \<Longrightarrow> extract_page_details drv = extract_page_details drv'"
  by (simp add: extract_page_details_def split: outcome.splits)

lemma extract_image_links_current:
  "current drv = current drv' \<Longrightarrow> extract_image_links drv = extract_image_links drv'"
  by (simp add: extract_image_links_def split: outcome.splits)

lemma recursive_scrape_skip:
  "max_depth < d \<or> u \<in> visited_urls s \<Longrightarrow> recursive_scrape max_depth u d s = (Returns (), s)"
  by (simp add: recursive_scrape.simps)

lemma recursive_scrape_fail:
  assumes "\<not> max_depth < d" "u \<notin> visited_urls s" "fetch (web (driver s)) u = None"
  shows "recursive_scrape max_depth u d s = (Returns (), after_get s u)"
proof (cases "web (driver s) u")
  case (Raises e)
  with assms show ?thesis
    by (simp add: recursive_scrape.simps driver_get_def except_Exception_def after_get_def)
next
  case (Returns doc)
  let ?drv = "(driver s)\<lparr>current := doc, history := history (driver s) @ [u]\<rparr>"
  have "extract_page_details ?drv
      = extract_page_details \<lparr>web = web (driver s), current = doc, history = []\<rparr>"
    by (rule extract_page_details_current) simp
  with assms Returns obtain e where "extract_page_details ?drv = Raises e"
    by (auto simp: fetch_def split: outcome.splits)
  with assms Returns show ?thesis
    by (simp add: recursive_scrape.simps driver_get_def except_Exception_def after_get_def)
qed

lemma recursive_scrape_ok:
  assumes "\<not> max_depth < d" "u \<notin> visited_urls s" "fetch (web (driver s)) u = Some p"
  shows "recursive_scrape max_depth u d s =
         except_Exception
           (follow_links max_depth (candidates (web (driver s)) u) d (recorded s u p))"
proof (cases "web (driver s) u")
  case (Raises e)
  with assms show ?thesis by (simp add: fetch_def)
next
  case (Returns doc)
  let ?drv = "(driver s)\<lparr>current := doc, history := history (driver s) @ [u]\<rparr>"
  let ?d0 = "\<lparr>web = web (driver s), current = doc, history = []\<rparr>"
  have "extract_page_details ?drv = extract_page_details ?d0"
    by (rule extract_page_details_current) simp
  with assms Returns have p: "extract_page_details ?drv = Returns p"
    by (auto simp: fetch_def split: outcome.splits)
  have l: "extract_image_links ?drv = candidates (web (driver s)) u"
    unfolding candidates_def Returns by (simp add: extract_image_links_def)
  from assms Returns p l show ?thesis
    by (simp add: recursive_scrape.simps driver_get_def recorded_def after_get_def)
qed

lemma recursive_scrape_returns: "fst (recursive_scrape max_depth u d s) = Returns ()"
  by (simp add: recursive_scrape.simps except_Exception_def split: outcome.splits prod.splits)

lemma follow_links_returns: "fst (follow_links max_depth ls d s) = Returns ()"
proof (induction ls arbitrary: s)
  case Nil
  show ?case by simp
next
  case (Cons l ls)
  obtain s' where "recursive_scrape max_depth l (d + 1) s = (Returns (), s')"
    using recursive_scrape_returns [of max_depth l "d + 1" s]
    by (cases "recursive_scrape max_depth l (d + 1) s") auto
  then show ?case using Cons.IH [of s'] by simp
qed

lemma follow_links_Cons:
  "follow_links max_depth (l # ls) d s =
     follow_links max_depth ls d (snd (recursive_scrape max_depth l (d + 1) s))"
  using recursive_scrape_returns [of max_depth l "d + 1" s]
  by (cases "recursive_scrape max_depth l (d + 1) s") auto

declare follow_links.simps(2) [simp del]

lemma recursive_scrape_ok':
  assumes "\<not> max_depth < d" "u \<notin> visited_urls s" "fetch (web (driver s)) u = Some p"
  shows "recursive_scrape max_depth u d s =
           follow_links max_depth (candidates (web (driver s)) u) d (recorded s u p)"
  using follow_links_returns [of max_depth "candidates (web (driver s)) u" d "recorded s u p"]
  by (simp add: recursive_scrape_ok [OF assms] except_Exception_def split: outcome.splits)


lemma web_after_get [simp]: "web (driver (after_get s u)) = web (driver s)"
  by (simp add: after_get_def driver_get_def split: outcome.splits)

lemma history_after_get [simp]:
  "history (driver (after_get s u)) = history (driver s) @ [u]"
  by (simp add: after_get_def driver_get_def split: outcome.splits)

lemma pages_after_get [simp]: "scraped_pages (after_get s u) = scraped_pages s"
  by (simp add: after_get_def)

lemma visited_after_get [simp]: "visited_urls (after_get s u) = visited_urls s"
  by (simp add: after_get_def)

lemma driver_recorded [simp]: "driver (recorded s u p) = driver (after_get s u)"
  by (simp add: recorded_def)

lemma pages_recorded [simp]: "scraped_pages (recorded s u p) = scraped_pages s @ [p]"
  by (simp add: recorded_def)

lemma visited_recorded [simp]: "visited_urls (recorded s u p) = insert u (visited_urls s)"
  by (simp add: recorded_def)

lemma scrape_induct [case_names skip fail ok nil cons]:
  assumes skip: "\<And>m u d s. m < d \<or> u \<in> visited_urls s \<Longrightarrow> P m u d s"
    and fail: "\<And>m u d s. \<not> m < d \<Longrightarrow> u \<notin> visited_urls s \<Longrightarrow>
                 fetch (web (driver s)) u = None \<Longrightarrow> P m u d s"
    and ok: "\<And>m u d s p. \<not> m < d \<Longrightarrow> u \<notin> visited_urls s \<Longrightarrow>
               fetch (web (driver s)) u = Some p \<Longrightarrow>
               Q m (candidates (web (driver s)) u) d (recorded s u p) \<Longrightarrow> P m u d s"
    and nil: "\<And>m d s. Q m [] d s"
    and cons: "\<And>m l ls d s. P m l (d + 1) s \<Longrightarrow>
                 Q m ls d (snd (recursive_scrape m l (d + 1) s)) \<Longrightarrow> Q m (l # ls) d s"
  shows "P m u d s" and "Q m ls d s"
proof (induction m u d s and m ls d s rule: recursive_scrape_follow_links.induct)
  case (1 m u d s)
  show ?case
  proof (cases "m < d \<or> u \<in> visited_urls s")
    case True
    then show ?thesis by (rule skip)
  next
    case False
    then have g: "\<not> m < d" "u \<notin> visited_urls s" by simp_all
    show ?thesis
    proof (cases "fetch (web (driver s)) u")
      case None
      with g show ?thesis by (rule fail)
    next
      case (Some p)
      then obtain doc where doc: "web (driver s) u = Returns doc"
        by (auto simp: fetch_def split: outcome.splits)
      let ?drv = "(driver s)\<lparr>current := doc, history := history (driver s) @ [u]\<rparr>"
      have get: "driver_get (driver s) u = (Returns (), ?drv)"
        by (simp add: driver_get_def doc)
      have "extract_page_details ?drv
          = extract_page_details \<lparr>web = web (driver s), current = doc, history = []\<rparr>"
        by (rule extract_page_details_current) simp
      with Some doc have p: "extract_page_details ?drv = Returns p"
        by (auto simp: fetch_def split: outcome.splits)
      have l: "extract_image_links ?drv = candidates (web (driver s)) u"
        unfolding candidates_def doc by (simp add: extract_image_links_def)
      have r: "s\<lparr>driver := ?drv, scraped_pages := scraped_pages s @ [p],
                  visited_urls := insert u (visited_urls s)\<rparr> = recorded s u p"
        by (simp add: recorded_def after_get_def get)
      from "1.IH" [OF False get [symmetric] refl p]
      have "Q m (candidates (web (driver s)) u) d (recorded s u p)"
        by (simp only: l r)
      with g Some show ?thesis by (rule ok)
    qed
  qed
next
  case (2 m d s)
  show ?case by (rule nil)
next
  case (3 m l ls d s)
  obtain s' where s': "recursive_scrape m l (d + 1) s = (Returns (), s')"
    using recursive_scrape_returns [of m l "d + 1" s]
    by (cases "recursive_scrape m l (d + 1) s") auto
  from "3.IH"(2) [OF s' [symmetric] refl] have "Q m ls d (snd (recursive_scrape m l (d + 1) s))"
    by (simp add: s')
  with "3.IH"(1) show ?case by (rule cons)
qed


lemma navigate_and_extract_crawl_from:
  "navigate_and_extract drv u m =
     (Returns (scraped_pages (crawl_from drv u m)), driver (crawl_from drv u m))"
  using recursive_scrape_returns [of m u 0 "start drv"]
  by (cases "recursive_scrape m u 0 (start drv)")
     (auto simp: navigate_and_extract_def crawl_from_def start_def)

lemma web_scrape:
  "web (driver (snd (recursive_scrape m u d s))) = web (driver s)"
  "web (driver (snd (follow_links m ls d s))) = web (driver s)"
proof (induction m u d s and m ls d s rule: scrape_induct)
  case (skip m u d s)
  then show ?case by (simp add: recursive_scrape_skip)
next
  case (fail m u d s)
  then show ?case by (simp add: recursive_scrape_fail)
next
  case (ok m u d s p)
  then show ?case by (simp add: recursive_scrape_ok')
next
  case (nil m d s)
  show ?case by simp
next
  case (cons m l ls d s)
  then show ?case by (simp add: follow_links_Cons)
qed

lemma consistent_start: "consistent (history drv) (start drv)"
  by (simp add: consistent_def start_def List.map_filter_def)

lemma consistent_after_get:
  assumes "consistent h0 s" "fetch (web (driver s)) u = None"
  shows "consistent h0 (after_get s u)"
proof -
  from assms(1) obtain hs where hs: "history (driver s) = h0 @ hs"
    "distinct (filter (scraped (web (driver s))) hs)"
    "visited_urls s = set (filter (scraped (web (driver s))) hs)"
    "scraped_pages s = List.map_filter (fetch (web (driver s))) hs"
    by (auto simp: consistent_def)
  have "history (driver (after_get s u)) = h0 @ (hs @ [u])"
    by (simp add: hs)
  moreover have "filter (scraped (web (driver s))) (hs @ [u]) = filter (scraped (web (driver s))) hs"
    using assms(2) by (simp add: scraped_def)
  moreover have "List.map_filter (fetch (web (driver s))) (hs @ [u])
      = List.map_filter (fetch (web (driver s))) hs"
    using assms(2) by (simp add: List.map_filter_def)
  ultimately show ?thesis
    unfolding consistent_def using hs(2-4)
    by (intro exI [of _ "hs @ [u]"]) simp
qed

lemma consistent_recorded:
  assumes "consistent h0 s" "fetch (web (driver s)) u = Some p" "u \<notin> visited_urls s"
  shows "consistent h0 (recorded s u p)"
proof -
  from assms(1) obtain hs where hs: "history (driver s) = h0 @ hs"
    "distinct (filter (scraped (web (driver s))) hs)"
    "visited_urls s = set (filter (scraped (web (driver s))) hs)"
    "scraped_pages s = List.map_filter (fetch (web (driver s))) hs"
    by (auto simp: consistent_def)
  have "history (driver (recorded s u p)) = h0 @ (hs @ [u])"
    by (simp add: hs)
  moreover have "filter (scraped (web (driver s))) (hs @ [u])
      = filter (scraped (web (driver s))) hs @ [u]"
    using assms(2) by (simp add: scraped_def)
  moreover have "List.map_filter (fetch (web (driver s))) (hs @ [u])
      = List.map_filter (fetch (web (driver s))) hs @ [p]"
    using assms(2) by (simp add: List.map_filter_def)
  ultimately show ?thesis
    unfolding consistent_def using hs(2-4) assms(3)
    by (intro exI [of _ "hs @ [u]"]) simp
qed

lemma consistent_scrape:
  "consistent h0 s \<Longrightarrow> consistent h0 (snd (recursive_scrape m u d s))"
  "consistent h0 s \<Longrightarrow> consistent h0 (snd (follow_links m ls d s))"
proof (induction m u d s and m ls d s rule: scrape_induct)
  case (skip m u d s)
  then show ?case by (simp add: recursive_scrape_skip)
next
  case (fail m u d s)
  then show ?case by (simp add: recursive_scrape_fail consistent_after_get)
next
  case (ok m u d s p)
  then show ?case by (simp add: recursive_scrape_ok' consistent_recorded)
next
  case (nil m d s)
  then show ?case by simp
next
  case (cons m l ls d s)
  then show ?case by (simp add: follow_links_Cons)
qed

lemma consistent_crawl_from: "consistent (history drv) (crawl_from drv u m)"
  unfolding crawl_from_def by (rule consistent_scrape(1) [OF consistent_start])

lemma web_crawl_from: "web (driver (crawl_from drv u m)) = web drv"
  by (simp add: crawl_from_def web_scrape start_def)

lemma history_scrape:
  "\<exists>hs. history (driver (snd (recursive_scrape m u d s))) = history (driver s) @ hs"
  "\<exists>hs. history (driver (snd (follow_links m ls d s))) = history (driver s) @ hs"
proof (induction m u d s and m ls d s rule: scrape_induct)
  case (skip m u d s)
  then show ?case by (simp add: recursive_scrape_skip)
next
  case (fail m u d s)
  then show ?case by (simp add: recursive_scrape_fail)
next
  case (ok m u d s p)
  then show ?case by (auto simp add: recursive_scrape_ok')
next
  case (nil m d s)
  show ?case by simp
next
  case (cons m l ls d s)
  then show ?case by (auto simp: follow_links_Cons)
qed

text \<open>The rewrite rules that run the scraper on a given browser.\<close>

lemmas crawl_eval =
  navigate_and_extract_crawl_from crawl_from_def start_def
  recursive_scrape_skip recursive_scrape_fail recursive_scrape_ok' follow_links_Cons
  fetch_def candidates_def after_get_def recorded_def driver_get_def
  extract_page_details_def extract_image_links_def img_link_def keep_link_def
  truthy_def startswith_def

lemma image_links_Returns:
  "map img_link els = map Returns ls \<Longrightarrow> image_links els = Returns ls"
  by (induction els arbitrary: ls) auto

lemma image_links_Raises:
  "i \<in> set els \<Longrightarrow> img_link i = Raises e \<Longrightarrow> \<exists>e'. image_links els = Raises e'"
  by (induction els) (auto split: outcome.splits)

lemma pages_scrape:
  "\<exists>ps. scraped_pages (snd (recursive_scrape m u d s)) = scraped_pages s @ ps"
  "\<exists>ps. scraped_pages (snd (follow_links m ls d s)) = scraped_pages s @ ps"
proof (induction m u d s and m ls d s rule: scrape_induct)
  case (skip m u d s)
  then show ?case by (simp add: recursive_scrape_skip)
next
  case (fail m u d s)
  then show ?case by (simp add: recursive_scrape_fail)
next
  case (ok m u d s p)
  then show ?case by (auto simp add: recursive_scrape_ok')
next
  case (nil m d s)
  show ?case by simp
next
  case (cons m l ls d s)
  then show ?case by (auto simp: follow_links_Cons)
qed

lemma same_view_after_get: "same_view s t \<Longrightarrow> same_view (after_get s u) (after_get t u)"
  by (simp add: same_view_def)

lemma same_view_recorded: "same_view s t \<Longrightarrow> same_view (recorded s u p) (recorded t u p)"
  by (simp add: same_view_def)

lemma same_view_scrape:
  "\<forall>t. same_view s t \<longrightarrow>
     same_view (snd (recursive_scrape m u d s)) (snd (recursive_scrape m u d t))"
  "\<forall>t. same_view s t \<longrightarrow>
     same_view (snd (follow_links m ls d s)) (snd (follow_links m ls d t))"
proof (induction m u d s and m ls d s rule: scrape_induct)
  case (skip m u d s)
  then show ?case by (auto simp: recursive_scrape_skip same_view_def)
next
  case (fail m u d s)
  show ?case
  proof (intro allI impI)
    fix t assume v: "same_view s t"
    with fail have "\<not> m < d" "u \<notin> visited_urls t" "fetch (web (driver t)) u = None"
      by (simp_all add: same_view_def)
    then have "recursive_scrape m u d t = (Returns (), after_get t u)"
      by (rule recursive_scrape_fail)
    with fail v show "same_view (snd (recursive_scrape m u d s)) (snd (recursive_scrape m u d t))"
      by (simp add: recursive_scrape_fail same_view_after_get)
  qed
next
  case (ok m u d s p)
  show ?case
  proof (intro allI impI)
    fix t assume v: "same_view s t"
    with ok have "\<not> m < d" "u \<notin> visited_urls t" "fetch (web (driver t)) u = Some p"
      by (simp_all add: same_view_def)
    then have "recursive_scrape m u d t =
        follow_links m (candidates (web (driver t)) u) d (recorded t u p)"
      by (rule recursive_scrape_ok')
    moreover from v have "web (driver t) = web (driver s)"
      by (simp add: same_view_def)
    moreover from v have "same_view (recorded s u p) (recorded t u p)"
      by (rule same_view_recorded)
    ultimately show "same_view (snd (recursive_scrape m u d s)) (snd (recursive_scrape m u d t))"
      using ok by (simp add: recursive_scrape_ok')
  qed
next
  case (nil m d s)
  show ?case by simp
next
  case (cons m l ls d s)
  then show ?case by (simp add: follow_links_Cons)
qed

lemma follow_links_too_deep:
  "m < d + 1 \<Longrightarrow> follow_links m ls d s = (Returns (), s)"
  by (induction ls) (simp_all add: follow_links_Cons recursive_scrape_skip)

lemma within_mono: "i \<le> j \<Longrightarrow> within w seed i \<subseteq> within w seed j"
proof (induction j)
  case 0
  then show ?case by simp
next
  case (Suc j)
  then show ?case by (cases "i = Suc j") auto
qed

lemma within_step:
  "u \<in> within w seed n \<Longrightarrow> set (candidates w u) \<subseteq> within w seed (Suc n)"
  by auto

lemma visited_within:
  "0 \<le> d \<and> u \<in> within (web (driver s)) seed (nat d) \<and>
     visited_urls s \<subseteq> within (web (driver s)) seed (nat m) \<longrightarrow>
   visited_urls (snd (recursive_scrape m u d s)) \<subseteq> within (web (driver s)) seed (nat m)"
  "0 \<le> d \<and> set ls \<subseteq> within (web (driver s)) seed (nat (d + 1)) \<and>
     visited_urls s \<subseteq> within (web (driver s)) seed (nat m) \<longrightarrow>
   visited_urls (snd (follow_links m ls d s)) \<subseteq> within (web (driver s)) seed (nat m)"
proof (induction m u d s and m ls d s rule: scrape_induct)
  case (skip m u d s)
  then show ?case by (simp add: recursive_scrape_skip)
next
  case (fail m u d s)
  then show ?case by (simp add: recursive_scrape_fail)
next
  case (ok m u d s p)
  show ?case
  proof (intro impI, elim conjE)
    assume d: "0 \<le> d" and u: "u \<in> within (web (driver s)) seed (nat d)"
      and v: "visited_urls s \<subseteq> within (web (driver s)) seed (nat m)"
    from ok(1) d have "nat d \<le> nat m" by simp
    with u have um: "u \<in> within (web (driver s)) seed (nat m)"
      using within_mono by blast
    from d have "nat (d + 1) = Suc (nat d)" by simp
    with u have "set (candidates (web (driver s)) u) \<subseteq> within (web (driver s)) seed (nat (d + 1))"
      using within_step by metis
    with ok d v um
    show "visited_urls (snd (recursive_scrape m u d s)) \<subseteq> within (web (driver s)) seed (nat m)"
      by (simp add: recursive_scrape_ok')
  qed
next
  case (nil m d s)
  show ?case by simp
next
  case (cons m l ls d s)
  then show ?case by (simp add: follow_links_Cons web_scrape)
qed

lemma follow_links_append:
  "follow_links m (xs @ ys) d s = follow_links m ys d (snd (follow_links m xs d s))"
  by (induction xs arbitrary: s) (simp_all add: follow_links_Cons)

lemma recursive_scrape_leaf:
  assumes "\<not> m < d" "m < d + 1"
  shows "scraped_pages (snd (recursive_scrape m u d s)) =
           scraped_pages s @
           (if u \<in> visited_urls s then []
            else case fetch (web (driver s)) u of None \<Rightarrow> [] | Some q \<Rightarrow> [q])"
    and "visited_urls (snd (recursive_scrape m u d s)) =
           (if fetch (web (driver s)) u = None then visited_urls s
            else insert u (visited_urls s))"
proof -
  consider "u \<in> visited_urls s" | "u \<notin> visited_urls s" "fetch (web (driver s)) u = None"
    | q where "u \<notin> visited_urls s" "fetch (web (driver s)) u = Some q"
    by (cases "fetch (web (driver s)) u") auto
  then have "scraped_pages (snd (recursive_scrape m u d s)) =
           scraped_pages s @
           (if u \<in> visited_urls s then []
            else case fetch (web (driver s)) u of None \<Rightarrow> [] | Some q \<Rightarrow> [q]) \<and>
        visited_urls (snd (recursive_scrape m u d s)) =
           (if fetch (web (driver s)) u = None then visited_urls s
            else insert u (visited_urls s))"
  proof cases
    case 1
    then show ?thesis by (simp add: recursive_scrape_skip insert_absorb)
  next
    case 2
    with assms show ?thesis by (simp add: recursive_scrape_fail)
  next
    case 3
    with assms show ?thesis by (simp add: recursive_scrape_ok' follow_links_too_deep)
  qed
  then show "scraped_pages (snd (recursive_scrape m u d s)) =
           scraped_pages s @
           (if u \<in> visited_urls s then []
            else case fetch (web (driver s)) u of None \<Rightarrow> [] | Some q \<Rightarrow> [q])"
    and "visited_urls (snd (recursive_scrape m u d s)) =
           (if fetch (web (driver s)) u = None then visited_urls s
            else insert u (visited_urls s))"
    by simp_all
qed

lemma firsts_snoc: "firsts (xs @ [x]) = (if x \<in> set xs then firsts xs else firsts xs @ [x])"
  by (simp add: firsts_def)

lemma map_filter_snoc:
  "List.map_filter f (xs @ [x]) =
     List.map_filter f xs @ (case f x of None \<Rightarrow> [] | Some q \<Rightarrow> [q])"
  by (simp add: List.map_filter_def split: option.splits)

lemma follow_links_last_level:
  assumes "m = d + 1"
  shows "scraped_pages (snd (follow_links m ls d s)) =
           scraped_pages s @
           List.map_filter (fetch (web (driver s)))
             (firsts (filter (\<lambda>l. l \<notin> visited_urls s) ls)) \<and>
         visited_urls (snd (follow_links m ls d s)) =
           visited_urls s \<union> {l \<in> set ls. fetch (web (driver s)) l \<noteq> None}"
proof (induction ls rule: rev_induct)
  case Nil
  show ?case by (simp add: firsts_def List.map_filter_def)
next
  case (snoc l ls)
  let ?s = "snd (follow_links m ls d s)"
  let ?w = "web (driver s)"
  let ?V = "visited_urls s"
  let ?F = "filter (\<lambda>l. l \<notin> ?V) ls"
  have w: "web (driver ?s) = ?w"
    by (rule web_scrape)
  from assms have g: "\<not> m < d + 1" "m < d + 1 + 1" by simp_all
  have step: "snd (follow_links m (ls @ [l]) d s) = snd (recursive_scrape m l (d + 1) ?s)"
    by (simp add: follow_links_append follow_links_Cons)
  from snoc.IH have P: "scraped_pages ?s = scraped_pages s @ List.map_filter (fetch ?w) (firsts ?F)"
    and V: "visited_urls ?s = ?V \<union> {l \<in> set ls. fetch ?w l \<noteq> None}"
    by simp_all
  have V': "visited_urls (snd (recursive_scrape m l (d + 1) ?s)) =
      (if fetch ?w l = None then visited_urls ?s else insert l (visited_urls ?s))"
    using recursive_scrape_leaf(2) [OF g, of l ?s] by (simp only: w)
  have P': "scraped_pages (snd (recursive_scrape m l (d + 1) ?s)) =
      scraped_pages ?s @
      (if l \<in> visited_urls ?s then []
       else case fetch ?w l of None \<Rightarrow> [] | Some q \<Rightarrow> [q])"
    using recursive_scrape_leaf(1) [OF g, of l ?s] by (simp only: w)
  define S where "S = {x \<in> set ls. fetch ?w x \<noteq> None}"
  define S' where "S' = {x \<in> set (ls @ [l]). fetch ?w x \<noteq> None}"
  have S': "S' = (if fetch ?w l = None then S else insert l S)"
    by (auto simp: S_def S'_def)
  have "visited_urls (snd (follow_links m (ls @ [l]) d s)) = ?V \<union> S'"
    unfolding step V' V S_def [symmetric] S' by simp
  then have visited: "visited_urls (snd (follow_links m (ls @ [l]) d s)) =
      ?V \<union> {x \<in> set (ls @ [l]). fetch ?w x \<noteq> None}"
    by (simp only: S'_def)
  have pages: "scraped_pages (snd (follow_links m (ls @ [l]) d s)) =
      scraped_pages s @ List.map_filter (fetch ?w) (firsts (filter (\<lambda>l. l \<notin> ?V) (ls @ [l])))"
  proof (cases "l \<in> ?V")
    case True
    then have "l \<in> visited_urls ?s" by (simp add: V)
    with True show ?thesis
      by (simp add: step P' P)
  next
    case out: False
    then have F: "filter (\<lambda>l. l \<notin> ?V) (ls @ [l]) = ?F @ [l]" by simp
    show ?thesis
    proof (cases "fetch ?w l")
      case None
      then show ?thesis
        by (simp add: step P' P F firsts_snoc map_filter_snoc)
    next
      case (Some q)
      show ?thesis
      proof (cases "l \<in> set ls")
        case True
        with out Some have "l \<in> visited_urls ?s" "l \<in> set ?F" by (simp_all add: V)
        then show ?thesis
          by (simp add: step P' P F firsts_snoc)
      next
        case False
        with out have "l \<notin> visited_urls ?s" "l \<notin> set ?F" by (simp_all add: V)
        with Some out False show ?thesis
          by (simp add: step P' P F firsts_snoc map_filter_snoc)
      qed
    qed
  qed
  from pages visited show ?case by simp
qed

lemma pages_origin:
  "q \<in> set (scraped_pages (crawl_from drv seed m)) \<Longrightarrow>
     \<exists>u \<in> visited_urls (crawl_from drv seed m). fetch (web drv) u = Some q"
proof -
  assume q: "q \<in> set (scraped_pages (crawl_from drv seed m))"
  from consistent_crawl_from [of drv seed m] obtain hs where
    v: "visited_urls (crawl_from drv seed m) = set (filter (scraped (web drv)) hs)"
    and p: "scraped_pages (crawl_from drv seed m) = List.map_filter (fetch (web drv)) hs"
    by (auto simp: consistent_def web_crawl_from)
  from q obtain u where "u \<in> set hs" "fetch (web drv) u = Some q"
    unfolding p List.map_filter_def by auto
  then show ?thesis
    unfolding v by (auto simp: scraped_def)
qed

lemma visited_scraped:
  "u \<in> visited_urls (crawl_from drv seed m) \<Longrightarrow> fetch (web drv) u \<noteq> None"
  using consistent_crawl_from [of drv seed m]
  by (auto simp: consistent_def web_crawl_from scraped_def)

lemma visited_crawl_from_within:
  "visited_urls (crawl_from drv seed m) \<subseteq> within (web drv) seed (nat m)"
  using visited_within(1) [of 0 seed "start drv" seed m]
  by (simp add: crawl_from_def start_def)

lemma same_view_failed:
  assumes "fetch (web (driver s)) u = None"
  shows "same_view (snd (recursive_scrape m u d s)) s"
proof (cases "m < d \<or> u \<in> visited_urls s")
  case True
  then show ?thesis by (simp add: recursive_scrape_skip same_view_def)
next
  case False
  with assms show ?thesis by (simp add: recursive_scrape_fail same_view_def)
qed

section \<open>The claims\<close>

subsection \<open>C1: a location is marked visited once its page is recorded\<close>




subsection \<open>C2: one record for each visited location\<close>

text \<open>
  C2, as the claim states it, fails: the visited set holds the location asked for and
  the record the location the driver ends on, so when B redirects to A the run from A
  returns two records whose location is A.
\<close>

theorem redirect_gives_two_records:
  "fst (navigate_and_extract (fresh redirect_web) ''http://a'' 2) =
     Returns [\<lparr>title = ''A'', url = ''http://a'', page_content = ''Welcome to A''\<rparr>,
              \<lparr>title = ''A'', url = ''http://a'', page_content = ''Welcome to A''\<rparr>]"
  by (simp add: crawl_eval fresh_def redirect_web_def plain_page_def plain_img_def)

text \<open>
  C2, amended.  The visited set is a set, and the result has exactly one record for
  each visited location.  On a web without redirects (the record of a location carries
  that location) no two records of the result have the same location, and the
  locations of the records are the visited ones.  When A and B show an image from each
  other and the depth allows one step, the result is the record of A and then the
  record of B.
\<close>

theorem one_record_per_location:
  "length (scraped_pages (crawl_from drv seed m)) = card (visited_urls (crawl_from drv seed m)) \<and>
   fst (navigate_and_extract drv seed m) = Returns (scraped_pages (crawl_from drv seed m)) \<and>
   ((\<forall>u p. fetch (web drv) u = Some p \<longrightarrow> url p = u) \<longrightarrow>
      distinct (map url (scraped_pages (crawl_from drv seed m))) \<and>
      set (map url (scraped_pages (crawl_from drv seed m))) = visited_urls (crawl_from drv seed m)) \<and>
   (a \<noteq> b \<and> 1 \<le> m \<and> fetch (web drv) a = Some pa \<and> fetch (web drv) b = Some pb \<and>
    candidates (web drv) a = [b] \<and> candidates (web drv) b = [a] \<longrightarrow>
      fst (navigate_and_extract drv a m) = Returns [pa, pb])"
proof -
  let ?w = "web drv"
  from consistent_crawl_from [of drv seed m] obtain hs where
    d: "distinct (filter (scraped ?w) hs)"
    and v: "visited_urls (crawl_from drv seed m) = set (filter (scraped ?w) hs)"
    and p: "scraped_pages (crawl_from drv seed m) = List.map_filter (fetch ?w) hs"
    by (auto simp: consistent_def web_crawl_from)
  have p': "scraped_pages (crawl_from drv seed m) = map (the \<circ> fetch ?w) (filter (scraped ?w) hs)"
    unfolding p List.map_filter_def scraped_def by (rule refl)
  have "length (scraped_pages (crawl_from drv seed m)) = card (visited_urls (crawl_from drv seed m))"
    using distinct_card [OF d] by (simp add: p' v del: set_filter)
  moreover have "map url (scraped_pages (crawl_from drv seed m)) = filter (scraped ?w) hs"
    if "\<forall>u p. fetch ?w u = Some p \<longrightarrow> url p = u"
    unfolding p' using that by (induction hs) (auto simp: scraped_def)
  moreover have "fst (navigate_and_extract drv a m) = Returns [pa, pb]"
    if "a \<noteq> b \<and> 1 \<le> m \<and> fetch ?w a = Some pa \<and> fetch ?w b = Some pb \<and>
        candidates ?w a = [b] \<and> candidates ?w b = [a]"
  proof -
    from that have "b \<noteq> a" "\<not> m < 0" "\<not> m < 1" by auto
    with that show ?thesis
      by (simp add: navigate_and_extract_crawl_from crawl_from_def start_def
          recursive_scrape_ok' recursive_scrape_skip follow_links_Cons)
  qed
  ultimately show ?thesis
    using d v by (simp add: navigate_and_extract_crawl_from)
qed

theorem one_record_per_location_witness:
  "distinct (map url (scraped_pages (crawl_from (fresh cycle_web) ''http://a'' 2))) \<and>
   fst (navigate_and_extract (fresh cycle_web) ''http://a'' 2) =
     Returns [\<lparr>title = ''A'', url = ''http://a'', page_content = ''Welcome to A''\<rparr>,
              \<lparr>title = ''B'', url = ''http://b'', page_content = ''Welcome to B''\<rparr>]"
  using one_record_per_location
    [where drv = "fresh cycle_web" and seed = "''http://a''" and m = 2
       and a = "''http://a''" and b = "''http://b''"
       and pa = "\<lparr>title = ''A'', url = ''http://a'', page_content = ''Welcome to A''\<rparr>"
       and pb = "\<lparr>title = ''B'', url = ''http://b'', page_content = ''Welcome to B''\<rparr>"]
  by (simp add: fresh_def cycle_web_def fetch_def candidates_def plain_page_def
        plain_img_def extract_page_details_def extract_image_links_def img_link_def
        keep_link_def truthy_def startswith_def split: if_splits)

subsection \<open>C3: the arguments are not validated\<close>

text \<open>
  C3, as the claim states it, fails: with the empty string as start location and depth 0,
  on a browser that refuses the empty location, \<^verbatim>\<open>navigate_and_extract\<close> returns the
  empty list instead of failing, and the driver has been asked to load the empty location.
\<close>

theorem empty_seed_is_loaded:
  "fst (navigate_and_extract (fresh rejecting_web) '''' 0) = Returns [] \<and>
   history (snd (navigate_and_extract (fresh rejecting_web) '''' 0)) = ['''']"
  by (simp add: crawl_eval fresh_def rejecting_web_def)

text \<open>
  C3, amended.  \<^verbatim>\<open>navigate_and_extract\<close> checks neither argument and never fails,
  with \<^verbatim>\<open>InvalidArgument\<close> or otherwise: it always returns a list.  With a negative
  maximum depth that list is empty and the driver is left untouched; with any other
  maximum depth the driver is asked to load the start location first, whatever it is.
\<close>

theorem navigate_and_extract_unvalidated:
  "(\<exists>ps. fst (navigate_and_extract drv seed m) = Returns ps) \<and>
   (m < 0 \<longrightarrow> navigate_and_extract drv seed m = (Returns [], drv)) \<and>
   (0 \<le> m \<longrightarrow>
      (\<exists>hs. history (snd (navigate_and_extract drv seed m)) = history drv @ seed # hs))"
proof -
  have "\<exists>hs. history (driver (crawl_from drv seed m)) = history drv @ seed # hs" if "0 \<le> m"
  proof (cases "fetch (web (driver (start drv))) seed")
    case None
    from that have "\<not> m < 0" by simp
    from recursive_scrape_fail [OF this _ None] show ?thesis
      by (simp add: crawl_from_def start_def)
  next
    case (Some p)
    from that have "\<not> m < 0" by simp
    from recursive_scrape_ok' [OF this _ Some]
    have "crawl_from drv seed m =
        snd (follow_links m (candidates (web (driver (start drv))) seed) 0
               (recorded (start drv) seed p))"
      by (simp add: crawl_from_def start_def)
    moreover obtain hs where
      "history (driver (snd (follow_links m (candidates (web (driver (start drv))) seed) 0
               (recorded (start drv) seed p))))
       = history (driver (recorded (start drv) seed p)) @ hs"
      using history_scrape(2) by blast
    ultimately show ?thesis
      by (simp add: start_def)
  qed
  then show ?thesis
    by (simp add: navigate_and_extract_crawl_from crawl_from_def recursive_scrape_skip start_def)
qed

theorem navigate_and_extract_unvalidated_witness:
  "navigate_and_extract (fresh rejecting_web) '''' (- 1) = (Returns [], fresh rejecting_web) \<and>
   (\<exists>hs. history (snd (navigate_and_extract (fresh rejecting_web) '''' 0))
          = history (fresh rejecting_web) @ '''' # hs)"
  using navigate_and_extract_unvalidated [of "fresh rejecting_web" "''''" "- 1"]
    navigate_and_extract_unvalidated [of "fresh rejecting_web" "''''" 0]
  by simp

subsection \<open>C4: one element that raises empties the list of links\<close>

text \<open>
  C4, as the claim states it, fails: on a page with two images, the first with a stale
  handle and the second readable with a link that line 68 would keep,
  \<^verbatim>\<open>extract_image_links\<close> returns no link at all.
\<close>

theorem stale_element_drops_all:
  "img_link (plain_img ''http://x/pic.png'') = Returns (Some ''http://x/pic.png'') \<and>
   keep_link (Some ''http://x/pic.png'') \<and>
   extract_image_links (showing (gallery (Returns [stale_img, plain_img ''http://x/pic.png'']))) = []"
  by (simp add: crawl_eval showing_def gallery_def stale_img_def plain_img_def)

text \<open>
  C4, amended.  When every element can be read, \<^verbatim>\<open>extract_image_links\<close> returns the
  links that pass line 68, and an element with neither a \<^verbatim>\<open>src\<close> nor an \<^verbatim>\<open>href\<close>
  around it contributes nothing while the others still count.  When reading any one
  element raises, or finding the elements raises, the result is the empty list: the
  links of the readable elements are dropped as well, and nothing is raised to the caller.
\<close>

theorem extract_image_links_all_or_nothing:
  "(img_elements (current drv) = Returns els \<and> map img_link els = map Returns ls \<longrightarrow>
      extract_image_links drv = map the (filter keep_link ls)) \<and>
   (src i = Returns a \<and> \<not> truthy a \<and> parent_href i = Returns b \<and> \<not> truthy b \<longrightarrow>
      img_link i = Returns b \<and> \<not> keep_link b) \<and>
   (img_elements (current drv) = Returns els \<and> i \<in> set els \<and> img_link i = Raises e \<longrightarrow>
      extract_image_links drv = []) \<and>
   (img_elements (current drv) = Raises e \<longrightarrow> extract_image_links drv = [])"
proof (intro conjI impI)
  assume "img_elements (current drv) = Returns els \<and> map img_link els = map Returns ls"
  then show "extract_image_links drv = map the (filter keep_link ls)"
    by (simp add: extract_image_links_def image_links_Returns)
next
  assume "src i = Returns a \<and> \<not> truthy a \<and> parent_href i = Returns b \<and> \<not> truthy b"
  then show "img_link i = Returns b" "\<not> keep_link b"
    by (auto simp: img_link_def keep_link_def split: option.splits)
next
  assume a: "img_elements (current drv) = Returns els \<and> i \<in> set els \<and> img_link i = Raises e"
  then obtain e' where "image_links els = Raises e'"
    using image_links_Raises by blast
  with a show "extract_image_links drv = []"
    by (simp add: extract_image_links_def)
next
  assume "img_elements (current drv) = Raises e"
  then show "extract_image_links drv = []"
    by (simp add: extract_image_links_def)
qed

theorem extract_image_links_all_or_nothing_witness:
  "extract_image_links
     (showing (gallery (Returns [bare_img, plain_img ''http://x/pic.png''])))
     = [''http://x/pic.png''] \<and>
   img_link bare_img = Returns None \<and>
   extract_image_links
     (showing (gallery (Returns [plain_img ''http://x/pic.png'', stale_img]))) = [] \<and>
   extract_image_links (showing (gallery (Raises NoSuchElementException))) = []"
  using extract_image_links_all_or_nothing
    [where drv = "showing (gallery (Returns [bare_img, plain_img ''http://x/pic.png'']))"
       and els = "[bare_img, plain_img ''http://x/pic.png'']"
       and ls = "[None, Some ''http://x/pic.png'']"
       and i = bare_img and a = "Some []" and b = None]
    extract_image_links_all_or_nothing
    [where drv = "showing (gallery (Returns [plain_img ''http://x/pic.png'', stale_img]))"
       and els = "[plain_img ''http://x/pic.png'', stale_img]"
       and i = stale_img and e = StaleElementReferenceException]
    extract_image_links_all_or_nothing
    [where drv = "showing (gallery (Raises NoSuchElementException))"
       and e = NoSuchElementException]
  by (simp add: showing_def gallery_def bare_img_def plain_img_def stale_img_def
        img_link_def truthy_def keep_link_def startswith_def)

subsection \<open>C5: the depth bound\<close>

text \<open>
  C5.  A call of \<^verbatim>\<open>recursive_scrape\<close> at a depth beyond the maximum returns at once and
  changes nothing, and so do the calls for the links of a page at the maximum depth.
  Every visited location is within the maximum depth of the start location, counted in
  links, and every record of the result is the record of such a location.  With maximum
  depth 0 and a start location that gives a page, the result is the record of that page
  alone; with maximum depth 1 it is that record followed by the records of the
  locations the page links to, other than itself, each at its first occurrence.
\<close>

theorem depth_bound:
  "(m < d \<longrightarrow> recursive_scrape m u d s = (Returns (), s)) \<and>
   (m < d + 1 \<longrightarrow> follow_links m ls d s = (Returns (), s)) \<and>
   visited_urls (crawl_from drv seed m) \<subseteq> within (web drv) seed (nat m) \<and>
   (\<exists>ps. fst (navigate_and_extract drv seed m) = Returns ps \<and>
      (\<forall>q \<in> set ps. \<exists>u \<in> within (web drv) seed (nat m). fetch (web drv) u = Some q)) \<and>
   (fetch (web drv) seed = Some p \<longrightarrow>
      fst (navigate_and_extract drv seed 0) = Returns [p] \<and>
      fst (navigate_and_extract drv seed 1) =
        Returns (p # List.map_filter (fetch (web drv))
                       (firsts (filter (\<lambda>l. l \<noteq> seed) (candidates (web drv) seed)))))"
proof -
  have origin: "\<forall>q \<in> set (scraped_pages (crawl_from drv seed m)).
      \<exists>u \<in> within (web drv) seed (nat m). fetch (web drv) u = Some q"
    using pages_origin [of _ drv seed m] visited_crawl_from_within [of drv seed m] by blast
  have zero: "fst (navigate_and_extract drv seed 0) = Returns [p]"
    if "fetch (web drv) seed = Some p"
    using that
    by (simp add: navigate_and_extract_crawl_from crawl_from_def start_def
          recursive_scrape_ok' follow_links_too_deep)
  have one: "fst (navigate_and_extract drv seed 1) =
        Returns (p # List.map_filter (fetch (web drv))
                       (firsts (filter (\<lambda>l. l \<noteq> seed) (candidates (web drv) seed))))"
    if "fetch (web drv) seed = Some p"
  proof -
    have "(1::int) = 0 + 1" by simp
    from follow_links_last_level [OF this, of "candidates (web drv) seed" "recorded (start drv) seed p"]
    have "scraped_pages (snd (follow_links 1 (candidates (web drv) seed) 0
              (recorded (start drv) seed p))) =
        p # List.map_filter (fetch (web drv))
              (firsts (filter (\<lambda>l. l \<noteq> seed) (candidates (web drv) seed)))"
      by (simp add: start_def)
    with that show ?thesis
      by (simp add: navigate_and_extract_crawl_from crawl_from_def start_def
            recursive_scrape_ok')
  qed
  from origin zero one show ?thesis
    by (simp add: recursive_scrape_skip follow_links_too_deep visited_crawl_from_within
          navigate_and_extract_crawl_from)
qed

theorem depth_bound_witness:
  "recursive_scrape 1 ''http://c'' 2 (start (fresh family_web))
     = (Returns (), start (fresh family_web)) \<and>
   fst (navigate_and_extract (fresh family_web) ''http://a'' 0) =
     Returns [\<lparr>title = ''A'', url = ''http://a'', page_content = ''Welcome to A''\<rparr>] \<and>
   fst (navigate_and_extract (fresh family_web) ''http://a'' 1) =
     Returns [\<lparr>title = ''A'', url = ''http://a'', page_content = ''Welcome to A''\<rparr>,
              \<lparr>title = ''C'', url = ''http://c'', page_content = ''Welcome to C''\<rparr>]"
proof -
  let ?pa = "\<lparr>title = ''A'', url = ''http://a'', page_content = ''Welcome to A''\<rparr>"
  note eval = fresh_def family_web_def fetch_def candidates_def plain_page_def
    plain_img_def extract_page_details_def extract_image_links_def img_link_def
    keep_link_def truthy_def startswith_def
  note t = depth_bound
    [where m = 1 and d = 2 and u = "''http://c''" and s = "start (fresh family_web)"
       and ls = "[]" and drv = "fresh family_web" and seed = "''http://a''" and p = ?pa]
  have a: "fetch (web (fresh family_web)) ''http://a'' = Some ?pa"
    by (simp add: eval)
  have c: "List.map_filter (fetch (web (fresh family_web)))
             (firsts (filter (\<lambda>l. l \<noteq> ''http://a'')
                (candidates (web (fresh family_web)) ''http://a'')))
           = [\<lparr>title = ''C'', url = ''http://c'', page_content = ''Welcome to C''\<rparr>]"
    by (simp add: eval firsts_def List.map_filter_def)
  from t a have "recursive_scrape 1 ''http://c'' 2 (start (fresh family_web))
       = (Returns (), start (fresh family_web))"
    and "fst (navigate_and_extract (fresh family_web) ''http://a'' 0) = Returns [?pa]"
    and "fst (navigate_and_extract (fresh family_web) ''http://a'' 1) =
           Returns (?pa # List.map_filter (fetch (web (fresh family_web)))
             (firsts (filter (\<lambda>l. l \<noteq> ''http://a'')
                (candidates (web (fresh family_web)) ''http://a''))))"
    by simp_all
  then show ?thesis
    by (simp only: c)
qed

subsection \<open>C6: a page that fails to load is passed over\<close>

text \<open>
  C6.  When loading a location or reading its details raises, the call of
  \<^verbatim>\<open>recursive_scrape\<close> for it returns normally and leaves the pages and the visited set
  as they were, and the loop over the links goes on to the same pages and visited set
  as without that link.  When A shows images from B and C, loading B fails and C gives
  a page, the result starts with the record of A and the record of C, B is not
  visited, and with maximum depth 1 the result is exactly those two records.
\<close>

theorem failed_render_is_skipped:
  "(fetch (web (driver s)) u = None \<longrightarrow>
      fst (recursive_scrape m u d s) = Returns () \<and>
      scraped_pages (snd (recursive_scrape m u d s)) = scraped_pages s \<and>
      visited_urls (snd (recursive_scrape m u d s)) = visited_urls s \<and>
      scraped_pages (snd (follow_links m (u # ls) d s)) = scraped_pages (snd (follow_links m ls d s)) \<and>
      visited_urls (snd (follow_links m (u # ls) d s)) = visited_urls (snd (follow_links m ls d s))) \<and>
   (a \<noteq> c \<and> 1 \<le> m \<and> fetch (web drv) a = Some pa \<and> candidates (web drv) a = [b, c] \<and>
    fetch (web drv) b = None \<and> fetch (web drv) c = Some pc \<longrightarrow>
      (\<exists>rest. navigate_and_extract drv a m
                = (Returns (pa # pc # rest), driver (crawl_from drv a m))) \<and>
      b \<notin> visited_urls (crawl_from drv a m) \<and>
      (m = 1 \<longrightarrow> fst (navigate_and_extract drv a m) = Returns [pa, pc]))"
proof -
  have one: "fst (recursive_scrape m u d s) = Returns () \<and>
      scraped_pages (snd (recursive_scrape m u d s)) = scraped_pages s \<and>
      visited_urls (snd (recursive_scrape m u d s)) = visited_urls s \<and>
      scraped_pages (snd (follow_links m (u # ls) d s)) = scraped_pages (snd (follow_links m ls d s)) \<and>
      visited_urls (snd (follow_links m (u # ls) d s)) = visited_urls (snd (follow_links m ls d s))"
    if f: "fetch (web (driver s)) u = None"
  proof -
    from f have "same_view (snd (recursive_scrape m u d s)) s"
      by (rule same_view_failed)
    moreover from f have v: "same_view (snd (recursive_scrape m u (d + 1) s)) s"
      by (rule same_view_failed)
    from same_view_scrape(2) [of "snd (recursive_scrape m u (d + 1) s)" m ls d] v
    have "same_view (snd (follow_links m (u # ls) d s)) (snd (follow_links m ls d s))"
      by (simp add: follow_links_Cons)
    ultimately show ?thesis
      by (simp add: same_view_def recursive_scrape_returns)
  qed
  have two: "(\<exists>rest. navigate_and_extract drv a m
                = (Returns (pa # pc # rest), driver (crawl_from drv a m))) \<and>
      b \<notin> visited_urls (crawl_from drv a m) \<and>
      (m = 1 \<longrightarrow> fst (navigate_and_extract drv a m) = Returns [pa, pc])"
    if h: "a \<noteq> c \<and> 1 \<le> m \<and> fetch (web drv) a = Some pa \<and> candidates (web drv) a = [b, c] \<and>
        fetch (web drv) b = None \<and> fetch (web drv) c = Some pc"
  proof -
    from h have g: "c \<noteq> a" "b \<noteq> a" "\<not> m < 0" "\<not> m < 1" by auto
    let ?s = "recorded (after_get (recorded (start drv) a pa) b) c pc"
    from h g have run: "crawl_from drv a m = snd (follow_links m (candidates (web drv) c) 1 ?s)"
      by (simp add: crawl_from_def start_def recursive_scrape_ok' recursive_scrape_fail
            follow_links_Cons)
    obtain rest where "scraped_pages (snd (follow_links m (candidates (web drv) c) 1 ?s))
        = scraped_pages ?s @ rest"
      using pages_scrape(2) by blast
    then have "scraped_pages (crawl_from drv a m) = pa # pc # rest"
      by (simp add: run start_def)
    moreover from h have "b \<notin> visited_urls (crawl_from drv a m)"
      using visited_scraped [of b drv a m] by auto
    moreover have "scraped_pages (crawl_from drv a m) = [pa, pc]" if "m = 1"
      unfolding run using that by (simp add: follow_links_too_deep start_def)
    ultimately show ?thesis
      by (simp add: navigate_and_extract_crawl_from)
  qed
  from one two show ?thesis by blast
qed

theorem failed_render_is_skipped_witness:
  "fst (navigate_and_extract (fresh family_web) ''http://a'' 1) =
     Returns [\<lparr>title = ''A'', url = ''http://a'', page_content = ''Welcome to A''\<rparr>,
              \<lparr>title = ''C'', url = ''http://c'', page_content = ''Welcome to C''\<rparr>] \<and>
   ''http://b'' \<notin> visited_urls (crawl_from (fresh family_web) ''http://a'' 1) \<and>
   scraped_pages (snd (recursive_scrape 1 ''http://b'' 1 (start (fresh family_web)))) = []"
  using failed_render_is_skipped
    [where drv = "fresh family_web" and a = "''http://a''" and b = "''http://b''"
       and c = "''http://c''" and m = 1 and d = 1 and u = "''http://b''" and ls = "[]"
       and s = "start (fresh family_web)"
       and pa = "\<lparr>title = ''A'', url = ''http://a'', page_content = ''Welcome to A''\<rparr>"
       and pc = "\<lparr>title = ''C'', url = ''http://c'', page_content = ''Welcome to C''\<rparr>"]
  by (simp add: start_def fresh_def family_web_def fetch_def candidates_def plain_page_def
        plain_img_def extract_page_details_def extract_image_links_def img_link_def
        keep_link_def truthy_def startswith_def)

subsection \<open>C7: the links kept are those that start with \<^verbatim>\<open>http\<close>\<close>

text \<open>
  C7, as the claim states it, fails: a reference with no scheme (it has no colon) whose
  name begins with the letters \<^verbatim>\<open>http\<close> is kept.
\<close>

theorem schemeless_reference_kept:
  "CHR '':'' \<notin> set ''http-logo.png'' \<and>
   extract_image_links (showing (gallery (Returns [wrapped_img ''http-logo.png''])))
     = [''http-logo.png'']"
  by (simp add: crawl_eval showing_def gallery_def wrapped_img_def)

text \<open>
  C7, amended.  A reference is in the list \<^verbatim>\<open>extract_image_links\<close> returns only if its
  first four characters are \<^verbatim>\<open>http\<close>; and when every element can be read, the list is
  exactly the references read that start so, in the order of the elements.  So \<^verbatim>\<open>/x\<close>
  and \<^verbatim>\<open>images/y.png\<close> are dropped and an \<^verbatim>\<open>https://\<close> reference is kept.
\<close>

theorem extract_image_links_http_prefix:
  "(l \<in> set (extract_image_links drv) \<longrightarrow> take 4 l = ''http'') \<and>
   (img_elements (current drv) = Returns els \<and> map img_link els = map Returns ls \<longrightarrow>
      extract_image_links drv = map the (filter keep_link ls) \<and>
      (l \<in> set (extract_image_links drv) \<longleftrightarrow> Some l \<in> set ls \<and> take 4 l = ''http''))"
proof -
  have keep: "keep_link x \<longleftrightarrow> (\<exists>l. x = Some l \<and> take 4 l = ''http'')" for x
    by (auto simp: keep_link_def truthy_def startswith_def eval_nat_numeral split: option.splits)
  have mem: "l \<in> set (map the (filter keep_link xs)) \<longleftrightarrow> Some l \<in> set xs \<and> take 4 l = ''http''"
    for xs
    by (auto simp: keep image_iff)
  have "take 4 l = ''http''" if "l \<in> set (extract_image_links drv)"
    using that mem by (auto simp: extract_image_links_def split: outcome.splits)
  moreover have "extract_image_links drv = map the (filter keep_link ls)"
    if "img_elements (current drv) = Returns els \<and> map img_link els = map Returns ls"
    using that by (simp add: extract_image_links_def image_links_Returns)
  ultimately show ?thesis
    using mem by auto
qed

theorem extract_image_links_http_prefix_witness:
  "extract_image_links (showing mixed_page) = [''https://example.com/x''] \<and>
   ''https://example.com/x'' \<in> set (extract_image_links (showing mixed_page)) \<and>
   ''/x'' \<notin> set (extract_image_links (showing mixed_page)) \<and>
   ''images/y.png'' \<notin> set (extract_image_links (showing mixed_page))"
  using extract_image_links_http_prefix
    [where drv = "showing mixed_page"
       and els = "map plain_img [''https://example.com/x'', ''/x'', ''images/y.png'']"
       and ls = "[Some ''https://example.com/x'', Some ''/x'', Some ''images/y.png'']"]
  by (simp add: showing_def mixed_page_def plain_page_def plain_img_def img_link_def
        truthy_def keep_link_def startswith_def)

subsection \<open>C8: the report\<close>

lemma write_pages_blocks:
  "write_pages k ps = concat (map (\<lambda>i. write_page (k + i) (ps ! i)) [0..<length ps])"
proof (induction ps arbitrary: k)
  case Nil
  show ?case by simp
next
  case (Cons p ps)
  have "[0..<length (p # ps)] = 0 # map Suc [0..<length ps]"
    by (simp add: upt_conv_Cons map_Suc_upt del: upt_Suc)
  then show ?case
    by (simp add: Cons.IH comp_def del: upt_Suc)
qed

lemma digit_char_all:
  "\<forall>k<10. of_char (''0123456789'' ! k) = 48 + k \<and>
          (k \<noteq> 0 \<longrightarrow> ''0123456789'' ! k \<noteq> CHR ''0'')"
proof -
  have "(10::nat) = Suc (Suc (Suc (Suc (Suc (Suc (Suc (Suc (Suc (Suc 0)))))))))"
    by simp
  then show ?thesis
    by (simp only: All_less_Suc) simp
qed

lemma digit_char:
  assumes "n < 10"
  shows "of_char (''0123456789'' ! n) = 48 + n"
    and "n \<noteq> 0 \<Longrightarrow> ''0123456789'' ! n \<noteq> CHR ''0''"
  using assms digit_char_all by blast+

lemma decimal_snoc: "decimal (ds @ [c]) = 10 * decimal ds + (of_char c - 48)"
  by (simp add: decimal_def)

lemma str_of_nat_nonempty: "str_of_nat n \<noteq> []"
  by (subst str_of_nat.simps) simp

lemma decimal_str_of_nat: "decimal (str_of_nat n) = n"
proof (induction n rule: str_of_nat.induct)
  case (1 n)
  show ?case
  proof (cases "n < 10")
    case True
    then show ?thesis
      by (subst str_of_nat.simps) (simp add: decimal_def digit_char(1))
  next
    case False
    have "n mod 10 < 10" by simp
    from digit_char(1) [OF this] False "1.IH" show ?thesis
      by (subst str_of_nat.simps) (simp add: decimal_snoc)
  qed
qed

lemma str_of_nat_digits: "set (str_of_nat n) \<subseteq> set ''0123456789''"
proof (induction n rule: str_of_nat.induct)
  case (1 n)
  have d: "''0123456789'' ! k \<in> set ''0123456789''" if "k < 10" for k
    using that by (intro nth_mem) simp
  show ?case
  proof (cases "n < 10")
    case True
    with d [of n] show ?thesis
      by (subst str_of_nat.simps) simp
  next
    case False
    with d [of "n mod 10"] "1.IH" show ?thesis
      by (subst str_of_nat.simps) simp
  qed
qed

lemma str_of_nat_no_leading_zero: "0 < n \<Longrightarrow> hd (str_of_nat n) \<noteq> CHR ''0''"
proof (induction n rule: str_of_nat.induct)
  case (1 n)
  show ?case
  proof (cases "n < 10")
    case True
    with "1.prems" digit_char(2) [of n] show ?thesis
      by (subst str_of_nat.simps) simp
  next
    case False
    then have "0 < n div 10" by simp
    with False "1.IH" have "hd (str_of_nat (n div 10)) \<noteq> CHR ''0''" by simp
    with False show ?thesis
      by (subst str_of_nat.simps) (simp add: str_of_nat_nonempty)
  qed
qed

text \<open>
  C8.  \<^verbatim>\<open>save_scraped_data\<close> writes one block for each record, in the order of the
  list, the block of the record at position \<open>i\<close> (from 0) numbered \<open>i + 1\<close>.  The number
  is written in decimal: in digits only, without a leading zero, and read as a decimal
  number it is the index.  A block is the four lines of the format, and its content
  line holds the first 1000 characters of the content followed by three dots: of a
  content of 1500 characters, the first 1000.
\<close>

theorem save_scraped_data_blocks:
  "save_scraped_data ps = concat (map (\<lambda>i. write_page (i + 1) (ps ! i)) [0..<length ps]) \<and>
   write_page n p =
     ''Page '' @ str_of_nat n @ '':'' @ [newline] @
     ''Title: '' @ title p @ [newline] @
     ''URL: '' @ url p @ [newline] @
     ''Content: '' @ take 1000 (page_content p) @ ''...'' @ [newline, newline] \<and>
   (page_content p = a @ b \<and> length a = 1000 \<longrightarrow>
      write_page n p =
        ''Page '' @ str_of_nat n @ '':'' @ [newline] @
        ''Title: '' @ title p @ [newline] @
        ''URL: '' @ url p @ [newline] @
        ''Content: '' @ a @ ''...'' @ [newline, newline]) \<and>
   decimal (str_of_nat n) = n \<and>
   set (str_of_nat n) \<subseteq> set ''0123456789'' \<and>
   str_of_nat n \<noteq> [] \<and>
   (0 < n \<longrightarrow> hd (str_of_nat n) \<noteq> CHR ''0'') \<and>
   (n < 10 \<longrightarrow> str_of_nat n = [''0123456789'' ! n])"
proof -
  have "n < 10 \<longrightarrow> str_of_nat n = [''0123456789'' ! n]"
    by (subst str_of_nat.simps) simp
  with str_of_nat_digits [of n] show ?thesis
    by (simp add: save_scraped_data_def write_pages_blocks write_page_def add.commute
          decimal_str_of_nat str_of_nat_nonempty str_of_nat_no_leading_zero)
qed

theorem save_scraped_data_blocks_witness:
  "save_scraped_data
     [\<lparr>title = ''A'', url = ''http://a'', page_content = ''hello''\<rparr>,
      \<lparr>title = ''B'', url = ''http://b'', page_content = ''world''\<rparr>] =
     ''Page 1:'' @ [newline] @ ''Title: A'' @ [newline] @ ''URL: http://a'' @ [newline] @
     ''Content: hello...'' @ [newline, newline] @
     ''Page 2:'' @ [newline] @ ''Title: B'' @ [newline] @ ''URL: http://b'' @ [newline] @
     ''Content: world...'' @ [newline, newline] \<and>
   write_page 12
     \<lparr>title = ''T'', url = ''http://t'',
      page_content = replicate 1000 (CHR ''a'') @ replicate 500 (CHR ''b'')\<rparr> =
     ''Page 12:'' @ [newline] @ ''Title: T'' @ [newline] @ ''URL: http://t'' @ [newline] @
     ''Content: '' @ replicate 1000 (CHR ''a'') @ ''...'' @ [newline, newline] \<and>
   decimal (str_of_nat 12) = 12 \<and>
   hd (str_of_nat 12) \<noteq> CHR ''0'' \<and>
   str_of_nat 7 = ''7''"
proof -
  note blocks = save_scraped_data_blocks
    [where ps = "[\<lparr>title = ''A'', url = ''http://a'', page_content = ''hello''\<rparr>,
                  \<lparr>title = ''B'', url = ''http://b'', page_content = ''world''\<rparr>]"]
  note block = save_scraped_data_blocks
    [where p = "\<lparr>title = ''T'', url = ''http://t'',
                 page_content = replicate 1000 (CHR ''a'') @ replicate 500 (CHR ''b'')\<rparr>"
       and a = "replicate 1000 (CHR ''a'')" and b = "replicate 500 (CHR ''b'')" and n = 12]
  note digit = save_scraped_data_blocks [where n = 7]
  have one: "str_of_nat (Suc 0) = ''1''" and two: "str_of_nat (Suc (Suc 0)) = ''2''"
    and twelve: "str_of_nat 12 = ''12''"
    by (simp_all add: str_of_nat.simps [of "Suc 0"] str_of_nat.simps [of "Suc (Suc 0)"]
          str_of_nat.simps [of 12])
  from blocks have "save_scraped_data
     [\<lparr>title = ''A'', url = ''http://a'', page_content = ''hello''\<rparr>,
      \<lparr>title = ''B'', url = ''http://b'', page_content = ''world''\<rparr>] =
     ''Page 1:'' @ [newline] @ ''Title: A'' @ [newline] @ ''URL: http://a'' @ [newline] @
     ''Content: hello...'' @ [newline, newline] @
     ''Page 2:'' @ [newline] @ ''Title: B'' @ [newline] @ ''URL: http://b'' @ [newline] @
     ''Content: world...'' @ [newline, newline]"
    by (simp add: write_page_def one two)
  moreover from block have "write_page 12
     \<lparr>title = ''T'', url = ''http://t'',
      page_content = replicate 1000 (CHR ''a'') @ replicate 500 (CHR ''b'')\<rparr> =
     ''Page 12:'' @ [newline] @ ''Title: T'' @ [newline] @ ''URL: http://t'' @ [newline] @
     ''Content: '' @ replicate 1000 (CHR ''a'') @ ''...'' @ [newline, newline]"
    by (simp add: twelve)
  moreover from block have "decimal (str_of_nat 12) = 12" "hd (str_of_nat 12) \<noteq> CHR ''0''"
    by simp_all
  moreover from digit have "str_of_nat 7 = ''7''"
    by simp
  ultimately show ?thesis
    by simp
qed

subsection \<open>C9: the report is a function of the web\<close>

text \<open>
  C9.  What the scraper returns and the report written from it depend on the driver
  only through the web it loads from: two drivers on the same web, whatever each shows
  and has loaded before, give the same result and the same report, character for
  character.  In particular a second run on the driver the first run leaves behind
  writes the same report as the first.
\<close>

theorem report_determined_by_web:
  "(web drv1 = web drv2 \<longrightarrow>
      fst (navigate_and_extract drv1 seed m) = fst (navigate_and_extract drv2 seed m) \<and>
      scrape_and_save drv1 seed m = scrape_and_save drv2 seed m) \<and>
   scrape_and_save (snd (navigate_and_extract drv seed m)) seed m = scrape_and_save drv seed m \<and>
   (\<exists>ps. scrape_and_save drv seed m = Returns (save_scraped_data ps))"
proof -
  have eq: "fst (navigate_and_extract d1 seed m) = fst (navigate_and_extract d2 seed m)"
    if "web d1 = web d2" for d1 d2
  proof -
    from that have "same_view (start d1) (start d2)"
      by (simp add: same_view_def start_def)
    with same_view_scrape(1) [of "start d1" m seed 0]
    have "same_view (crawl_from d1 seed m) (crawl_from d2 seed m)"
      by (simp add: crawl_from_def)
    then show ?thesis
      by (simp add: navigate_and_extract_crawl_from same_view_def)
  qed
  have save: "scrape_and_save d1 seed m = scrape_and_save d2 seed m"
    if "web d1 = web d2" for d1 d2
    unfolding scrape_and_save_def by (simp only: eq [OF that])
  have "web (snd (navigate_and_extract drv seed m)) = web drv"
    by (simp add: navigate_and_extract_crawl_from web_crawl_from)
  then have again: "scrape_and_save (snd (navigate_and_extract drv seed m)) seed m
      = scrape_and_save drv seed m"
    by (rule save)
  have returns: "\<exists>ps. scrape_and_save drv seed m = Returns (save_scraped_data ps)"
    by (auto simp: scrape_and_save_def navigate_and_extract_crawl_from)
  show ?thesis
  proof (intro conjI impI)
    assume w: "web drv1 = web drv2"
    then show "fst (navigate_and_extract drv1 seed m) = fst (navigate_and_extract drv2 seed m)"
      by (rule eq)
    from w show "scrape_and_save drv1 seed m = scrape_and_save drv2 seed m"
      by (rule save)
  next
    show "scrape_and_save (snd (navigate_and_extract drv seed m)) seed m
        = scrape_and_save drv seed m"
      by (rule again)
  next
    show "\<exists>ps. scrape_and_save drv seed m = Returns (save_scraped_data ps)"
      by (rule returns)
  qed
qed

theorem report_determined_by_web_witness:
  "scrape_and_save (fresh cycle_web) ''http://a'' 2 =
     scrape_and_save \<lparr>web = cycle_web, current = mixed_page, history = [''http://old'']\<rparr>
       ''http://a'' 2"
  using report_determined_by_web
    [where ?drv1.0 = "fresh cycle_web"
       and ?drv2.0 = "\<lparr>web = cycle_web, current = mixed_page, history = [''http://old'']\<rparr>"
       and seed = "''http://a''" and m = 2]
  by (simp add: fresh_def)

subsection \<open>C10: no exception leaves \<^verbatim>\<open>navigate_and_extract\<close>\<close>

text \<open>
  C10.  Neither \<^verbatim>\<open>recursive_scrape\<close> nor the loop over the links nor
  \<^verbatim>\<open>navigate_and_extract\<close> passes an exception to its caller, whatever the driver
  raises and on whatever location; and when loading the start location raises, the call
  returns the empty list.
\<close>

theorem navigate_and_extract_catches:
  "fst (recursive_scrape m u d s) = Returns () \<and>
   fst (follow_links m ls d s) = Returns () \<and>
   (\<exists>ps. fst (navigate_and_extract drv seed m) = Returns ps) \<and>
   (web drv seed = Raises e \<longrightarrow> fst (navigate_and_extract drv seed m) = Returns [])"
proof -
  have "fst (navigate_and_extract drv seed m) = Returns []" if "web drv seed = Raises e"
  proof -
    from that have f: "fetch (web (driver (start drv))) seed = None"
      by (simp add: fetch_def start_def)
    have v: "seed \<notin> visited_urls (start drv)"
      by (simp add: start_def)
    show ?thesis
    proof (cases "m < 0")
      case True
      then show ?thesis
        by (simp add: navigate_and_extract_crawl_from crawl_from_def recursive_scrape_skip start_def)
    next
      case False
      from recursive_scrape_fail [OF False v f] show ?thesis
        by (simp add: navigate_and_extract_crawl_from crawl_from_def start_def)
    qed
  qed
  then show ?thesis
    by (simp add: recursive_scrape_returns follow_links_returns navigate_and_extract_crawl_from)
qed

theorem navigate_and_extract_catches_witness:
  "fst (navigate_and_extract (fresh rejecting_web) ''http://a'' 2) = Returns []"
  using navigate_and_extract_catches
    [where drv = "fresh rejecting_web" and seed = "''http://a''" and m = 2
       and e = TimeoutException]
  by (simp add: fresh_def rejecting_web_def)

end
